theory Spec2Isabelle
  imports Main
begin

section \<open>The Qt values used by \<^verbatim>\<open>qhttpsocket.cpp\<close>\<close>

text \<open>
  \<^verbatim>\<open>QByteArray\<close> and \<^verbatim>\<open>QString\<close> are both modelled as \<open>string\<close>, a list of code
  units: the model is that of requests in ASCII, where a byte is a code unit. The
  character classes of \<^verbatim>\<open>QChar\<close> are given on the ASCII range, which is the range of
  the request line and header syntax; other code units are neither space nor upper
  case.
\<close>

subsection \<open>Searching and splitting\<close>

text \<open>
  \<^verbatim>\<open>indexOf\<close>: the offset of the first occurrence of \<open>sep\<close>, \<open>None\<close> for Qt's \<open>-1\<close>.
\<close>

fun QString_indexOf :: "string \<Rightarrow> string \<Rightarrow> nat option" where
  "QString_indexOf [] sep = (if sep = [] then Some 0 else None)"
| "QString_indexOf (c # cs) sep =
     (if take (length sep) (c # cs) = sep then Some 0
      else map_option Suc (QString_indexOf cs sep))"

text \<open>
  \<^verbatim>\<open>split\<close> with a non-empty separator, keeping empty parts (Qt's default): the
  text before each occurrence found from left to right, then the rest. The source
  calls it with \<open>CR LF\<close> and with a single space only; for the empty separator,
  which Qt treats in a way of its own, the model returns the string unsplit.
\<close>

function QString_split :: "string \<Rightarrow> string \<Rightarrow> string list" where
  "QString_split s sep =
     (if sep = [] then [s]
      else case QString_indexOf s sep of
             None \<Rightarrow> [s]
           | Some i \<Rightarrow> take i s # QString_split (drop (i + length sep) s) sep)"
  by pat_completeness auto

lemma QString_indexOf_bound:
  "QString_indexOf s sep = Some i \<Longrightarrow> i + length sep \<le> length s"
proof (induction s arbitrary: i)
  case Nil
  then show ?case by (simp split: if_splits)
next
  case (Cons c cs)
  show ?case
  proof (cases "take (length sep) (c # cs) = sep")
    case True
    then have "length (take (length sep) (c # cs)) = length sep"
      by simp
    then have "length sep \<le> length (c # cs)"
      unfolding length_take by linarith
    with True Cons.prems show ?thesis by simp
  next
    case False
    with Cons.prems obtain j where "QString_indexOf cs sep = Some j" "i = Suc j"
      by auto
    with Cons.IH show ?thesis by simp
  qed
qed

termination QString_split
proof (relation "measure (\<lambda>(s, sep). length s)")
  show "wf (measure (\<lambda>(s, sep). length s))" by simp
next
  fix s sep :: string and i
  assume sep: "sep \<noteq> []" and found: "QString_indexOf s sep = Some i"
  have "i + length sep \<le> length s"
    by (rule QString_indexOf_bound [OF found])
  moreover have "0 < length sep"
    using sep by simp
  ultimately have "length (drop (i + length sep) s) < length s"
    unfolding length_drop by linarith
  then show "((drop (i + length sep) s, sep), (s, sep)) \<in> measure (\<lambda>(s, sep). length s)"
    by simp
qed

declare QString_split.simps [simp del]

subsection \<open>From bytes to a string\<close>

text \<open>
  The constructor of \<^verbatim>\<open>QString\<close> from a \<^verbatim>\<open>QByteArray\<close>, which the call of
  \<^verbatim>\<open>parseRequestHeaders\<close> applies to the header block, stops at the first zero byte.
\<close>

definition QString_fromByteArray :: "string \<Rightarrow> string" where
  "QString_fromByteArray ba = takeWhile (\<lambda>c. c \<noteq> CHR 0x00) ba"

subsection \<open>Character classes\<close>

definition isSpace :: "char \<Rightarrow> bool" where
  "isSpace c = (c \<in> set [CHR 0x09, CHR 0x0A, CHR 0x0B, CHR 0x0C, CHR 0x0D, CHR '' ''])"

definition QChar_toLower :: "char \<Rightarrow> char" where
  "QChar_toLower c =
     (case map_of (zip ''ABCDEFGHIJKLMNOPQRSTUVWXYZ'' ''abcdefghijklmnopqrstuvwxyz'') c of
        None \<Rightarrow> c
      | Some l \<Rightarrow> l)"

definition QString_toLower :: "string \<Rightarrow> string" where
  "QString_toLower s = map QChar_toLower s"

definition QString_trimmed :: "string \<Rightarrow> string" where
  "QString_trimmed s = rev (dropWhile isSpace (rev (dropWhile isSpace s)))"

subsection \<open>\<^verbatim>\<open>QMap<QString, QString>\<close>\<close>

text \<open>
  \<^verbatim>\<open>operator<\<close> of \<^verbatim>\<open>QString\<close> compares code unit by code unit, a proper prefix
  being smaller.
\<close>

fun QString_less :: "string \<Rightarrow> string \<Rightarrow> bool" where
  "QString_less [] [] = False"
| "QString_less [] (y # ys) = True"
| "QString_less (x # xs) [] = False"
| "QString_less (x # xs) (y # ys) =
     ((of_char x :: nat) < of_char y \<or> (x = y \<and> QString_less xs ys))"

text \<open>
  A \<^verbatim>\<open>QMap\<close> keeps one entry for each key and iterates over its entries in
  ascending key order: it is modelled as the list of its entries in iteration order.
  \<^verbatim>\<open>insert\<close> replaces the value of a key that is present (neither key smaller than
  the other) and otherwise puts the entry at its place in the order.
\<close>

type_synonym QMap = "(string \<times> string) list"

fun QMap_insert :: "string \<Rightarrow> string \<Rightarrow> QMap \<Rightarrow> QMap" where
  "QMap_insert k v [] = [(k, v)]"
| "QMap_insert k v ((k', v') # m) =
     (if QString_less k k' then (k, v) # (k', v') # m
      else if QString_less k' k then (k', v') # QMap_insert k v m
      else (k, v) # m)"

text \<open>\<^verbatim>\<open>value\<close>: the value stored for the key, a default-constructed string if none.\<close>

definition QMap_value :: "QMap \<Rightarrow> string \<Rightarrow> string" where
  "QMap_value m k = (case map_of m k of None \<Rightarrow> [] | Some v \<Rightarrow> v)"

definition QMap_keys :: "QMap \<Rightarrow> string list" where
  "QMap_keys m = map fst m"

section \<open>The state of one connection\<close>

text \<open>
  The error kinds of \<^verbatim>\<open>QHttpSocket::Error\<close>; \<open>NoError\<close> is the source's \<^verbatim>\<open>None\<close>.
\<close>

datatype Error =
  NoError | MalformedRequestLine | MalformedRequestHeader | InvalidHttpVersion | IncompleteHeader

text \<open>The signals emitted through the public object, in the order of emission.\<close>

datatype signal = requestHeadersParsed | readyRead | errorChanged Error

text \<open>
  The underlying \<^verbatim>\<open>QTcpSocket\<close> is outside the file: the model records the calls made
  on it, in order, with the bytes handed to its write primitive.
\<close>

datatype socket_call = socket_write string | socket_close

text \<open>
  The members of \<^verbatim>\<open>QHttpSocketPrivate\<close>, the error string of the \<^verbatim>\<open>QIODevice\<close> base,
  and the three effects of the code that leave the object: calls on the socket,
  emitted signals and messages given to \<^verbatim>\<open>qWarning\<close>.
\<close>

record QHttpSocketPrivate =
  socket :: "socket_call list"
  buffer :: string
  error :: Error
  errorString :: string
  requestMethod :: string
  requestUri :: string
  requestHeaders :: QMap
  requestHeadersRead :: bool
  responseStatusCode :: string
  responseHeaders :: QMap
  responseHeadersWritten :: bool
  emitted :: "signal list"
  warnings :: "string list"

text \<open>The constructor (lines 30 to 39).\<close>

definition init :: QHttpSocketPrivate where
  "init = \<lparr> socket = [], buffer = [], error = NoError, errorString = [],
            requestMethod = [], requestUri = [], requestHeaders = [],
            requestHeadersRead = False, responseStatusCode = ''200 OK'',
            responseHeaders = [], responseHeadersWritten = False,
            emitted = [], warnings = [] \<rparr>"

definition emit :: "signal \<Rightarrow> QHttpSocketPrivate \<Rightarrow> QHttpSocketPrivate" where
  "emit sig d = d\<lparr>emitted := emitted d @ [sig]\<rparr>"

definition qWarning :: "string \<Rightarrow> QHttpSocketPrivate \<Rightarrow> QHttpSocketPrivate" where
  "qWarning msg d = d\<lparr>warnings := warnings d @ [msg]\<rparr>"

section \<open>Writing the response headers\<close>

text \<open>
  The loop of \<^verbatim>\<open>writeResponseHeaders\<close> (lines 45 to 49): the iterator walks the map
  from \<^verbatim>\<open>constBegin\<close> to \<^verbatim>\<open>constEnd\<close> and appends \<^verbatim>\<open>"%1: %2"\<close> filled with key and
  value to the local string.
\<close>

fun appendHeaders :: "string \<Rightarrow> QMap \<Rightarrow> string" where
  "appendHeaders headers [] = headers"
| "appendHeaders headers ((k, v) # m) = appendHeaders (headers @ k @ '': '' @ v) m"

text \<open>The value of the local variable \<^verbatim>\<open>headers\<close> when the loop is left.\<close>

definition serializedHeaders :: "QHttpSocketPrivate \<Rightarrow> string" where
  "serializedHeaders d =
     appendHeaders (''HTTP/1.0 '' @ responseStatusCode d @ [CHR 0x0D, CHR 0x0A])
       (responseHeaders d)"

text \<open>
  \<^verbatim>\<open>writeResponseHeaders\<close> (lines 41 to 52) builds that string, does nothing with it,
  and sets the flag.
\<close>

definition writeResponseHeaders :: "QHttpSocketPrivate \<Rightarrow> QHttpSocketPrivate" where
  "writeResponseHeaders d =
     (let headers = serializedHeaders d
      in d\<lparr>responseHeadersWritten := True\<rparr>)"

section \<open>Reading the request headers\<close>

text \<open>
  \<^verbatim>\<open>abortWithError\<close> (lines 77 to 97): stores the kind, sets the error string of the
  kind (none for \<^verbatim>\<open>None\<close>), emits \<^verbatim>\<open>errorChanged\<close>. It returns to its caller.
\<close>

definition abortWithError :: "Error \<Rightarrow> QHttpSocketPrivate \<Rightarrow> QHttpSocketPrivate" where
  "abortWithError socketError d =
     (let d1 = d\<lparr>error := socketError\<rparr>;
          d2 = (case error d1 of
                  MalformedRequestLine \<Rightarrow> d1\<lparr>errorString := ''Malformed request line''\<rparr>
                | MalformedRequestHeader \<Rightarrow> d1\<lparr>errorString := ''Malformed request header''\<rparr>
                | InvalidHttpVersion \<Rightarrow> d1\<lparr>errorString := ''Invalid HTTP version''\<rparr>
                | IncompleteHeader \<Rightarrow> d1\<lparr>errorString := ''Incomplete header received''\<rparr>
                | NoError \<Rightarrow> d1)
      in emit (errorChanged (error d2)) d2)"

text \<open>\<^verbatim>\<open>parseRequestLine\<close> (lines 111 to 129).\<close>

definition parseRequestLine :: "string \<Rightarrow> QHttpSocketPrivate \<Rightarrow> QHttpSocketPrivate" where
  "parseRequestLine line d =
     (let parts = QString_split line '' ''
      in if length parts \<noteq> 3 then abortWithError MalformedRequestLine d
         else if parts ! 2 \<noteq> ''HTTP/1.0'' \<and> parts ! 2 \<noteq> ''HTTP/1.1''
           then abortWithError InvalidHttpVersion d
         else d\<lparr>requestMethod := parts ! 0, requestUri := parts ! 1\<rparr>)"

text \<open>\<^verbatim>\<open>parseRequestHeader\<close> (lines 131 to 145).\<close>

definition parseRequestHeader :: "string \<Rightarrow> QHttpSocketPrivate \<Rightarrow> QHttpSocketPrivate" where
  "parseRequestHeader header d =
     (case QString_indexOf header '':'' of
        None \<Rightarrow> abortWithError MalformedRequestHeader d
      | Some index \<Rightarrow>
          d\<lparr>requestHeaders :=
              QMap_insert (QString_toLower (QString_trimmed (take index header)))
                (QString_trimmed (drop (index + 1) header)) (requestHeaders d)\<rparr>)"

text \<open>
  \<^verbatim>\<open>parseRequestHeaders\<close> (lines 99 to 109). \<^verbatim>\<open>split\<close> returns at least one part, so
  \<^verbatim>\<open>takeFirst\<close> has a line to take; the \<^verbatim>\<open>foreach\<close> is the fold over the other lines.
\<close>

definition parseRequestHeaders :: "string \<Rightarrow> QHttpSocketPrivate \<Rightarrow> QHttpSocketPrivate" where
  "parseRequestHeaders headers d =
     (case QString_split headers [CHR 0x0D, CHR 0x0A] of
        first # parts \<Rightarrow>
          foldl (\<lambda>d' header. parseRequestHeader header d') (parseRequestLine first d) parts
      | [] \<Rightarrow> d)"

text \<open>
  \<^verbatim>\<open>onReadyRead\<close> (lines 54 to 75); \<open>bytes\<close> is what \<^verbatim>\<open>socket.readAll()\<close> returns.
\<close>

definition CRLFCRLF :: string where
  "CRLFCRLF = [CHR 0x0D, CHR 0x0A, CHR 0x0D, CHR 0x0A]"

definition onReadyRead :: "string \<Rightarrow> QHttpSocketPrivate \<Rightarrow> QHttpSocketPrivate" where
  "onReadyRead bytes d =
     (let d1 = d\<lparr>buffer := buffer d @ bytes\<rparr>
      in if \<not> requestHeadersRead d1 then
           (case QString_indexOf (buffer d1) CRLFCRLF of
              Some index \<Rightarrow>
                (let d2 = parseRequestHeaders
                            (QString_fromByteArray (take index (buffer d1))) d1;
                     d3 = d2\<lparr>buffer := drop (index + 4) (buffer d2)\<rparr>;
                     d4 = d3\<lparr>requestHeadersRead := True\<rparr>
                 in emit requestHeadersParsed d4)
            | None \<Rightarrow> d1)
         else emit readyRead d1)"

section \<open>The public operations\<close>

text \<open>\<^verbatim>\<open>close\<close> (lines 160 to 168).\<close>

definition close :: "QHttpSocketPrivate \<Rightarrow> QHttpSocketPrivate" where
  "close d =
     (let d1 = (if \<not> responseHeadersWritten d then writeResponseHeaders d else d)
      in d1\<lparr>socket := socket d1 @ [socket_close]\<rparr>)"

text \<open>
  The getters (lines 170 to 209) return the member; those of the request warn when
  the request headers have not been read and return it all the same.
\<close>

definition warnUnlessRead :: "QHttpSocketPrivate \<Rightarrow> QHttpSocketPrivate" where
  "warnUnlessRead d =
     (if \<not> requestHeadersRead d then qWarning ''Request headers have not yet been read'' d
      else d)"

definition QHttpSocket_error :: "QHttpSocketPrivate \<Rightarrow> Error" where
  "QHttpSocket_error d = error d"

definition QHttpSocket_requestMethod :: "QHttpSocketPrivate \<Rightarrow> QHttpSocketPrivate \<times> string" where
  "QHttpSocket_requestMethod d = (warnUnlessRead d, requestMethod d)"

definition QHttpSocket_requestUri :: "QHttpSocketPrivate \<Rightarrow> QHttpSocketPrivate \<times> string" where
  "QHttpSocket_requestUri d = (warnUnlessRead d, requestUri d)"

definition QHttpSocket_requestHeaders :: "QHttpSocketPrivate \<Rightarrow> QHttpSocketPrivate \<times> string list" where
  "QHttpSocket_requestHeaders d = (warnUnlessRead d, QMap_keys (requestHeaders d))"

definition QHttpSocket_requestHeader :: "string \<Rightarrow> QHttpSocketPrivate \<Rightarrow> QHttpSocketPrivate \<times> string" where
  "QHttpSocket_requestHeader header d =
     (warnUnlessRead d, QMap_value (requestHeaders d) (QString_toLower header))"

text \<open>The setters (lines 211 to 227).\<close>

definition setResponseStatusCode :: "string \<Rightarrow> QHttpSocketPrivate \<Rightarrow> QHttpSocketPrivate" where
  "setResponseStatusCode statusCode d =
     (let d1 = (if responseHeadersWritten d
                then qWarning ''Response headers have already been written'' d else d)
      in d1\<lparr>responseStatusCode := statusCode\<rparr>)"

definition setResponseHeader :: "string \<Rightarrow> string \<Rightarrow> QHttpSocketPrivate \<Rightarrow> QHttpSocketPrivate" where
  "setResponseHeader header val d =
     (let d1 = (if responseHeadersWritten d
                then qWarning ''Response headers have already been written'' d else d)
      in d1\<lparr>responseHeaders := QMap_insert header val (responseHeaders d1)\<rparr>)"

text \<open>
  \<^verbatim>\<open>readData\<close> (lines 234 to 249) returns the new state, the returned count and the
  bytes copied to \<^verbatim>\<open>data\<close>. \<^verbatim>\<open>QIODevice::read\<close> calls it with a length that is not
  negative. With a negative one the \<^verbatim>\<open>memcpy\<close> of the source has no defined outcome
  and the model copies nothing; \<^verbatim>\<open>QByteArray::remove\<close> then removes nothing, as \<open>drop\<close>
  does at \<open>nat size = 0\<close>.
\<close>

definition readData :: "int \<Rightarrow> QHttpSocketPrivate \<Rightarrow> QHttpSocketPrivate \<times> int \<times> string" where
  "readData maxlen d =
     (if \<not> requestHeadersRead d then (d, - 1, [])
      else let size = min (int (length (buffer d))) maxlen
           in (d\<lparr>buffer := drop (nat size) (buffer d)\<rparr>, size, take (nat size) (buffer d)))"

text \<open>
  \<^verbatim>\<open>writeData\<close> (lines 251 to 260); the returned count is the socket's own and is
  not part of the model.
\<close>

definition writeData :: "string \<Rightarrow> QHttpSocketPrivate \<Rightarrow> QHttpSocketPrivate" where
  "writeData data d =
     (let d1 = (if \<not> responseHeadersWritten d then writeResponseHeaders d else d)
      in d1\<lparr>socket := socket d1 @ [socket_write data]\<rparr>)"

section \<open>A connection as a sequence of calls\<close>

text \<open>
  What happens to one object over its life: the slot \<^verbatim>\<open>onReadyRead\<close> run by the
  socket with the bytes that arrived, and the calls of the owner.
\<close>

datatype call =
  DataArrived string
| Close
| RequestMethod
| RequestUri
| RequestHeaders
| RequestHeader string
| SetResponseStatusCode string
| SetResponseHeader string string
| ReadData int
| WriteData string

fun perform :: "call \<Rightarrow> QHttpSocketPrivate \<Rightarrow> QHttpSocketPrivate" where
  "perform (DataArrived bytes) d = onReadyRead bytes d"
| "perform Close d = close d"
| "perform RequestMethod d = fst (QHttpSocket_requestMethod d)"
| "perform RequestUri d = fst (QHttpSocket_requestUri d)"
| "perform RequestHeaders d = fst (QHttpSocket_requestHeaders d)"
| "perform (RequestHeader header) d = fst (QHttpSocket_requestHeader header d)"
| "perform (SetResponseStatusCode statusCode) d = setResponseStatusCode statusCode d"
| "perform (SetResponseHeader header val) d = setResponseHeader header val d"
| "perform (ReadData maxlen) d = fst (readData maxlen d)"
| "perform (WriteData data) d = writeData data d"

fun run :: "call list \<Rightarrow> QHttpSocketPrivate \<Rightarrow> QHttpSocketPrivate" where
  "run [] d = d"
| "run (c # cs) d = run cs (perform c d)"

text \<open>All bytes that arrived during the calls, in order.\<close>

fun received :: "call list \<Rightarrow> string" where
  "received [] = []"
| "received (DataArrived bytes # cs) = bytes @ received cs"
| "received (c # cs) = received cs"

text \<open>The socket calls a call of the owner stands for: its own payload, or the close.\<close>

fun forwarded :: "call \<Rightarrow> socket_call list" where
  "forwarded (WriteData data) = [socket_write data]"
| "forwarded Close = [socket_close]"
| "forwarded c = []"

section \<open>Notions of the specification\<close>

text \<open>The fault of a request line and of a header line, if it has one.\<close>

definition requestLineFault :: "string \<Rightarrow> Error list" where
  "requestLineFault line =
     (let parts = QString_split line '' ''
      in if length parts \<noteq> 3 then [MalformedRequestLine]
         else if parts ! 2 \<noteq> ''HTTP/1.0'' \<and> parts ! 2 \<noteq> ''HTTP/1.1''
           then [InvalidHttpVersion]
         else [])"

definition requestHeaderFault :: "string \<Rightarrow> Error list" where
  "requestHeaderFault header =
     (if QString_indexOf header '':'' = None then [MalformedRequestHeader] else [])"

text \<open>The parse faults of a header block, line by line.\<close>

definition parseFaults :: "string \<Rightarrow> Error list" where
  "parseFaults headers =
     (case QString_split headers [CHR 0x0D, CHR 0x0A] of
        first # parts \<Rightarrow> requestLineFault first @ concat (map requestHeaderFault parts)
      | [] \<Rightarrow> [])"

text \<open>The name and the value a header line stands for, if it has a colon.\<close>

definition headerEntry :: "string \<Rightarrow> (string \<times> string) option" where
  "headerEntry header =
     (case QString_indexOf header '':'' of
        None \<Rightarrow> None
      | Some j \<Rightarrow> Some (QString_toLower (QString_trimmed (take j header)),
                        QString_trimmed (drop (j + 1) header)))"

text \<open>
  The value of the last line among \<open>lines\<close> whose name is \<open>name\<close> without regard to
  case.
\<close>

definition lastOccurrence :: "string \<Rightarrow> string list \<Rightarrow> string option" where
  "lastOccurrence name lines =
     (let hits = filter (\<lambda>e. fst e = QString_toLower name) (List.map_filter headerEntry lines)
      in if hits = [] then None else Some (snd (last hits)))"

text \<open>
  The format of the specification: the status line, then each header of a list as
  name, colon, space and value, in the order of the list.
\<close>

definition serialization :: "string \<Rightarrow> (string \<times> string) list \<Rightarrow> string" where
  "serialization statusCode hs =
     ''HTTP/1.0 '' @ statusCode @ [CHR 0x0D, CHR 0x0A] @
     concat (map (\<lambda>(k, v). k @ '': '' @ v) hs)"

text \<open>The headers the owner set during the calls, in the order of the calls.\<close>

fun headersSet :: "call list \<Rightarrow> (string \<times> string) list" where
  "headersSet [] = []"
| "headersSet (SetResponseHeader header val # cs) = (header, val) # headersSet cs"
| "headersSet (c # cs) = headersSet cs"

text \<open>Joining parts with a separator between them, the inverse of splitting.\<close>

fun joined :: "string \<Rightarrow> string list \<Rightarrow> string" where
  "joined sep [] = []"
| "joined sep [p] = p"
| "joined sep (p # q # ps) = p @ sep @ joined sep (q # ps)"

text \<open>The payloads handed to the socket's write primitive, and those the owner wrote.\<close>

fun payloads :: "socket_call list \<Rightarrow> string list" where
  "payloads [] = []"
| "payloads (socket_write data # t) = data # payloads t"
| "payloads (socket_close # t) = payloads t"

fun written :: "call list \<Rightarrow> string list" where
  "written [] = []"
| "written (WriteData data # cs) = data # written cs"
| "written (c # cs) = written cs"

text \<open>
  What the parsing of the header block leaves as it is: every member but the error,
  the error string and the three request members, and the number of
  \<open>requestHeadersParsed\<close> signals emitted.
\<close>

definition unparsed :: "QHttpSocketPrivate \<Rightarrow> QHttpSocketPrivate \<Rightarrow> bool" where
  "unparsed d d' \<longleftrightarrow>
     socket d' = socket d \<and> buffer d' = buffer d \<and>
     requestHeadersRead d' = requestHeadersRead d \<and>
     responseStatusCode d' = responseStatusCode d \<and>
     responseHeaders d' = responseHeaders d \<and>
     responseHeadersWritten d' = responseHeadersWritten d \<and>
     warnings d' = warnings d \<and>
     count_list (emitted d') requestHeadersParsed = count_list (emitted d) requestHeadersParsed"

text \<open>What the parsing of the header block sets: the error and the request.\<close>

definition request :: "QHttpSocketPrivate \<Rightarrow> Error \<times> string \<times> string \<times> string \<times> QMap" where
  "request d = (error d, errorString d, requestMethod d, requestUri d, requestHeaders d)"

text \<open>
  The state of the parser over a connection that has received \<open>data\<close> so far: before
  the delimiter is there, nothing is read, the buffer holds all of \<open>data\<close> and the
  request is that of a new object; once it is there at offset \<open>i\<close>, the headers are
  read and the request is the one parsed from the first \<open>i\<close> bytes. The number of
  \<open>requestHeadersParsed\<close> signals is 0 before and 1 after.
\<close>

definition parserAt :: "string \<Rightarrow> QHttpSocketPrivate \<Rightarrow> bool" where
  "parserAt data d =
     (case QString_indexOf data CRLFCRLF of
        None \<Rightarrow>
          \<not> requestHeadersRead d \<and> buffer d = data \<and> request d = request init \<and>
          count_list (emitted d) requestHeadersParsed = 0
      | Some i \<Rightarrow>
          requestHeadersRead d \<and>
          request d = request (parseRequestHeaders (QString_fromByteArray (take i data)) init) \<and>
          count_list (emitted d) requestHeadersParsed = 1)"

text \<open>
  A step that reports the faults \<open>fs\<close>: it emits \<open>errorChanged\<close> for each, in order, and
  leaves the last of them in \<open>error\<close>.
\<close>

definition reports :: "Error list \<Rightarrow> QHttpSocketPrivate \<Rightarrow> QHttpSocketPrivate \<Rightarrow> bool" where
  "reports fs d d' \<longleftrightarrow>
     emitted d' = emitted d @ map errorChanged fs \<and>
     error d' = (if fs = [] then error d else last fs)"

section \<open>Properties of searching, ordering and the map\<close>

lemma take_append_left: "n \<le> length xs \<Longrightarrow> take n (xs @ ys) = take n xs"
  by simp

lemma QString_indexOf_append:
  "QString_indexOf s sep = Some i \<Longrightarrow> QString_indexOf (s @ t) sep = Some i"
proof (induction s arbitrary: i)
  case Nil
  then show ?case by (cases t) (simp_all split: if_splits)
next
  case (Cons c cs)
  show ?case
  proof (cases "take (length sep) (c # cs) = sep")
    case True
    then have "length (take (length sep) (c # cs)) = length sep"
      by simp
    then have "length sep \<le> length (c # cs)"
      unfolding length_take by linarith
    then have "take (length sep) ((c # cs) @ t) = take (length sep) (c # cs)"
      by (rule take_append_left)
    with True Cons.prems show ?thesis by simp
  next
    case False
    with Cons.prems obtain j where j: "QString_indexOf cs sep = Some j" "i = Suc j"
      by auto
    have "j + length sep \<le> length cs"
      by (rule QString_indexOf_bound [OF j(1)])
    then have "length sep \<le> length (c # cs)"
      by simp
    then have "take (length sep) ((c # cs) @ t) = take (length sep) (c # cs)"
      by (rule take_append_left)
    with False j Cons.IH [OF j(1)] show ?thesis by simp
  qed
qed

lemma QString_less_irrefl: "\<not> QString_less a a"
  by (induction a) simp_all

lemma QString_less_trans:
  "QString_less a b \<Longrightarrow> QString_less b c \<Longrightarrow> QString_less a c"
proof (induction a arbitrary: b c)
  case Nil
  then show ?case by (cases b; cases c; simp)
next
  case (Cons x xs)
  then show ?case by (cases b; cases c; auto)
qed

lemma QString_less_total:
  "\<not> QString_less a b \<Longrightarrow> \<not> QString_less b a \<Longrightarrow> a = b"
proof (induction a b rule: QString_less.induct)
  case (4 x xs y ys)
  then have "(of_char x :: nat) = of_char y"
    by auto
  then have "x = y" by simp
  with 4 show ?case by auto
qed simp_all

lemma map_of_QMap_insert: "map_of (QMap_insert k v m) = (map_of m)(k \<mapsto> v)"
proof (induction m)
  case Nil
  show ?case by simp
next
  case (Cons e m)
  obtain k' v' where e: "e = (k', v')" by (cases e)
  show ?case
  proof (cases "QString_less k k'")
    case True
    with e show ?thesis by (auto simp add: fun_eq_iff)
  next
    case False
    show ?thesis
    proof (cases "QString_less k' k")
      case True
      then have "k' \<noteq> k" using QString_less_irrefl by auto
      with True False e Cons.IH show ?thesis by (auto simp add: fun_eq_iff)
    next
      case k'k: False
      with False have "k = k'" by (rule QString_less_total)
      with False e show ?thesis by (auto simp add: QString_less_irrefl fun_eq_iff)
    qed
  qed
qed

lemma set_QMap_keys_insert: "set (map fst (QMap_insert k v m)) = insert k (set (map fst m))"
proof -
  have "set (map fst (QMap_insert k v m)) = dom (map_of (QMap_insert k v m))"
    by (simp add: dom_map_of_conv_image_fst)
  also have "\<dots> = insert k (dom (map_of m))"
    by (simp add: map_of_QMap_insert)
  also have "\<dots> = insert k (set (map fst m))"
    by (simp add: dom_map_of_conv_image_fst)
  finally show ?thesis .
qed

lemma sorted_QMap_insert:
  "sorted_wrt QString_less (map fst m) \<Longrightarrow> sorted_wrt QString_less (map fst (QMap_insert k v m))"
proof (induction m)
  case Nil
  show ?case by simp
next
  case (Cons e m)
  obtain k' v' where e: "e = (k', v')" by (cases e)
  from Cons.prems e have below: "\<forall>x \<in> set (map fst m). QString_less k' x"
    and sm: "sorted_wrt QString_less (map fst m)" by simp_all
  show ?case
  proof (cases "QString_less k k'")
    case True
    with below have "\<forall>x \<in> set (map fst m). QString_less k x"
      by (blast intro: QString_less_trans)
    with True e sm below show ?thesis by simp
  next
    case False
    show ?thesis
    proof (cases "QString_less k' k")
      case True
      have "\<forall>x \<in> set (map fst (QMap_insert k v m)). QString_less k' x"
        unfolding set_QMap_keys_insert using True below by simp
      with True False e Cons.IH [OF sm] show ?thesis by simp
    next
      case k'k: False
      with False have "k = k'" by (rule QString_less_total)
      with False e sm below show ?thesis by (simp add: QString_less_irrefl)
    qed
  qed
qed

section \<open>What the parsing leaves as it is\<close>

lemma unparsed_refl: "unparsed d d"
  by (simp add: unparsed_def)

lemma unparsed_trans: "unparsed a b \<Longrightarrow> unparsed b c \<Longrightarrow> unparsed a c"
  by (simp add: unparsed_def)

lemma unparsed_abortWithError: "unparsed d (abortWithError e d)"
  by (cases e) (simp_all add: unparsed_def abortWithError_def emit_def)

lemma unparsed_parseRequestLine: "unparsed d (parseRequestLine line d)"
  using unparsed_abortWithError [of d]
  by (simp add: parseRequestLine_def Let_def) (simp add: unparsed_def)

lemma unparsed_parseRequestHeader: "unparsed d (parseRequestHeader header d)"
  using unparsed_abortWithError [of d]
  by (simp add: parseRequestHeader_def split: option.splits) (simp add: unparsed_def)

lemma unparsed_foldl:
  "unparsed d (foldl (\<lambda>d' header. parseRequestHeader header d') d parts)"
proof (induction parts arbitrary: d)
  case Nil
  show ?case by (simp add: unparsed_refl)
next
  case (Cons header parts)
  have "unparsed d (parseRequestHeader header d)"
    by (rule unparsed_parseRequestHeader)
  moreover have "unparsed (parseRequestHeader header d)
      (foldl (\<lambda>d' header. parseRequestHeader header d') (parseRequestHeader header d) parts)"
    by (rule Cons.IH)
  ultimately show ?case
    by (simp add: unparsed_trans)
qed

lemma unparsed_parseRequestHeaders: "unparsed d (parseRequestHeaders headers d)"
proof (cases "QString_split headers [CHR 0x0D, CHR 0x0A]")
  case Nil
  then show ?thesis by (simp add: parseRequestHeaders_def unparsed_refl)
next
  case (Cons first parts)
  have "unparsed d (parseRequestLine first d)"
    by (rule unparsed_parseRequestLine)
  then have "unparsed d
      (foldl (\<lambda>d' header. parseRequestHeader header d') (parseRequestLine first d) parts)"
    using unparsed_foldl by (rule unparsed_trans)
  with Cons show ?thesis by (simp add: parseRequestHeaders_def)
qed

section \<open>The socket sees the payloads only\<close>

lemma socket_perform: "socket (perform c d) = socket d @ forwarded c"
proof (cases c)
  case (DataArrived bytes)
  have "socket (parseRequestHeaders h (d\<lparr>buffer := buffer d @ bytes\<rparr>)) = socket d" for h
    using unparsed_parseRequestHeaders [of "d\<lparr>buffer := buffer d @ bytes\<rparr>" h]
    by (simp add: unparsed_def)
  with DataArrived show ?thesis
    by (simp add: onReadyRead_def emit_def Let_def split: option.splits)
qed (simp_all add: close_def writeData_def writeResponseHeaders_def
      QHttpSocket_requestMethod_def QHttpSocket_requestUri_def QHttpSocket_requestHeaders_def
      QHttpSocket_requestHeader_def warnUnlessRead_def qWarning_def
      setResponseStatusCode_def setResponseHeader_def readData_def Let_def)

lemma socket_run: "socket (run cs d) = socket d @ concat (map forwarded cs)"
  by (induction cs arbitrary: d) (simp_all add: socket_perform)

lemma payloads_append: "payloads (a @ b) = payloads a @ payloads b"
  by (induction a rule: payloads.induct) simp_all

lemma payloads_forwarded: "payloads (concat (map forwarded cs)) = written cs"
  by (induction cs rule: written.induct) (simp_all add: payloads_append)

text \<open>
  Claim C3. Over every sequence of calls the socket is handed exactly the payloads of
  the write calls, in order, and its close for each close: \<open>writeResponseHeaders\<close>
  sets the flag and changes nothing else, so the string it builds is never handed
  to the socket.
\<close>

theorem only_payloads_reach_the_socket:
  "writeResponseHeaders d = d\<lparr>responseHeadersWritten := True\<rparr> \<and>
   socket (writeResponseHeaders d) = socket d \<and>
   socket (writeData data d) = socket d @ [socket_write data] \<and>
   socket (close d) = socket d @ [socket_close] \<and>
   socket (run cs d) = socket d @ concat (map forwarded cs) \<and>
   payloads (socket (run cs init)) = written cs"
proof -
  have "socket (run cs init) = concat (map forwarded cs)"
    by (simp add: socket_run init_def)
  then have "payloads (socket (run cs init)) = written cs"
    by (simp add: payloads_forwarded)
  then show ?thesis
    by (simp add: socket_run writeResponseHeaders_def writeData_def close_def Let_def)
qed

text \<open>
  Claim C2. At the first write on a new object the status line and the headers have
  been serialized to \<open>HTTP/1.0 200 OK\<close> and a line end, and the socket is handed the
  five bytes of the body alone; a close without a write hands it nothing before the
  close. The response headers do not reach the outbound stream, before the body or
  at all.
\<close>

theorem headers_never_reach_the_socket:
  "serializedHeaders init = ''HTTP/1.0 200 OK'' @ [CHR 0x0D, CHR 0x0A] \<and>
   socket (writeData ''hello'' init) = [socket_write ''hello''] \<and>
   socket (close init) = [socket_close] \<and>
   socket (run [WriteData ''hello'', WriteData ''world'', Close] init) =
     [socket_write ''hello'', socket_write ''world'', socket_close]"
  by (simp add: serializedHeaders_def writeData_def close_def writeResponseHeaders_def init_def)

section \<open>Reading the body\<close>

text \<open>
  Claim C8. \<open>readData\<close> returns \<open>-1\<close> and leaves the state alone while the request
  headers have not been read. Afterwards, asked for \<open>n \<ge> 0\<close> bytes, it returns the
  count \<open>min n (length buffer)\<close>, copies that many bytes from the front of the buffer,
  and removes exactly those, so the copied bytes followed by the new buffer are the
  old buffer; nothing else changes.
\<close>

theorem readData_front:
  "(\<not> requestHeadersRead d \<longrightarrow> readData n d = (d, - 1, [])) \<and>
   (requestHeadersRead d \<and> 0 \<le> n \<longrightarrow>
      fst (snd (readData n d)) = min n (int (length (buffer d))) \<and>
      int (length (snd (snd (readData n d)))) = min n (int (length (buffer d))) \<and>
      snd (snd (readData n d)) = take (nat (min n (int (length (buffer d))))) (buffer d) \<and>
      buffer (fst (readData n d)) = drop (nat (min n (int (length (buffer d))))) (buffer d) \<and>
      snd (snd (readData n d)) @ buffer (fst (readData n d)) = buffer d \<and>
      fst (readData n d) = d\<lparr>buffer := buffer (fst (readData n d))\<rparr>)"
  by (auto simp add: readData_def Let_def min_def)

theorem readData_front_witness:
  "readData 3 init = (init, - 1, []) \<and>
   requestHeadersRead (init\<lparr>requestHeadersRead := True, buffer := ''hello''\<rparr>) \<and>
   snd (readData 3 (init\<lparr>requestHeadersRead := True, buffer := ''hello''\<rparr>)) = (3, ''hel'') \<and>
   buffer (fst (readData 3 (init\<lparr>requestHeadersRead := True, buffer := ''hello''\<rparr>))) = ''lo'' \<and>
   snd (readData 9 (init\<lparr>requestHeadersRead := True, buffer := ''hello''\<rparr>)) = (5, ''hello'') \<and>
   buffer (fst (readData 9 (init\<lparr>requestHeadersRead := True, buffer := ''hello''\<rparr>))) = []"
  using readData_front [of init 3]
    readData_front [of "init\<lparr>requestHeadersRead := True, buffer := ''hello''\<rparr>" 3]
    readData_front [of "init\<lparr>requestHeadersRead := True, buffer := ''hello''\<rparr>" 9]
  by (simp add: init_def prod_eq_iff)

section \<open>Setting the response after its headers were written\<close>

text \<open>
  Claim C4, as stated, fails: after a write has set \<open>responseHeadersWritten\<close>, setting
  the status code changes \<open>responseStatusCode\<close> and setting a header changes
  \<open>responseHeaders\<close>.
\<close>

theorem setters_after_headers_counterexample:
  "responseHeadersWritten (writeData ''x'' init) \<and>
   responseStatusCode (setResponseStatusCode ''404 Not Found'' (writeData ''x'' init))
     \<noteq> responseStatusCode (writeData ''x'' init) \<and>
   responseHeaders (setResponseHeader ''Server'' ''q'' (writeData ''x'' init))
     \<noteq> responseHeaders (writeData ''x'' init)"
  by (simp add: writeData_def writeResponseHeaders_def setResponseStatusCode_def
      setResponseHeader_def qWarning_def init_def)

text \<open>
  Claim C4, amended. When \<open>responseHeadersWritten\<close> is true, each setter logs the
  warning and then applies the change as it does before the headers are written:
  the status code is the new one, the header is inserted, and the flag stays true.
\<close>

theorem setters_after_headers:
  "responseHeadersWritten d \<Longrightarrow>
   setResponseStatusCode statusCode d =
     d\<lparr>warnings := warnings d @ [''Response headers have already been written''],
       responseStatusCode := statusCode\<rparr> \<and>
   setResponseHeader header val d =
     d\<lparr>warnings := warnings d @ [''Response headers have already been written''],
       responseHeaders := QMap_insert header val (responseHeaders d)\<rparr> \<and>
   responseStatusCode (setResponseStatusCode statusCode d) = statusCode \<and>
   QMap_value (responseHeaders (setResponseHeader header val d)) header = val \<and>
   responseHeadersWritten (setResponseStatusCode statusCode d) \<and>
   responseHeadersWritten (setResponseHeader header val d)"
  by (simp add: setResponseStatusCode_def setResponseHeader_def qWarning_def
      QMap_value_def map_of_QMap_insert)

theorem setters_after_headers_witness:
  "responseHeadersWritten (writeData ''x'' init) \<and>
   responseStatusCode (setResponseStatusCode ''404 Not Found'' (writeData ''x'' init)) =
     ''404 Not Found'' \<and>
   QMap_value (responseHeaders (setResponseHeader ''Server'' ''q'' (writeData ''x'' init)))
     ''Server'' = ''q'' \<and>
   warnings (setResponseHeader ''Server'' ''q'' (writeData ''x'' init)) =
     [''Response headers have already been written'']"
proof -
  have written: "responseHeadersWritten (writeData ''x'' init)"
    by (simp add: writeData_def writeResponseHeaders_def init_def)
  have none: "warnings (writeData ''x'' init) = []"
    by (simp add: writeData_def writeResponseHeaders_def init_def)
  note t = setters_after_headers [OF written, of "''404 Not Found''" "''Server''" "''q''"]
  have "warnings (setResponseHeader ''Server'' ''q'' (writeData ''x'' init)) =
      [''Response headers have already been written'']"
    unfolding t [THEN conjunct2, THEN conjunct1] using none by simp
  with written t [THEN conjunct2, THEN conjunct2, THEN conjunct1]
    t [THEN conjunct2, THEN conjunct2, THEN conjunct2, THEN conjunct1]
  show ?thesis by blast
qed

section \<open>The request line\<close>

lemma QString_indexOf_found:
  "QString_indexOf s sep = Some i \<Longrightarrow> s = take i s @ sep @ drop (i + length sep) s"
proof (induction s arbitrary: i)
  case Nil
  then show ?case by (simp split: if_splits)
next
  case (Cons c cs)
  show ?case
  proof (cases "take (length sep) (c # cs) = sep")
    case True
    with Cons.prems have "i = 0" by simp
    moreover have "c # cs = take (length sep) (c # cs) @ drop (length sep) (c # cs)"
      by (simp only: append_take_drop_id)
    ultimately show ?thesis using True by simp
  next
    case False
    with Cons.prems obtain j where j: "QString_indexOf cs sep = Some j" "i = Suc j"
      by auto
    from Cons.IH [OF j(1)] j(2) show ?thesis by simp
  qed
qed

lemma QString_split_not_Nil: "QString_split s sep \<noteq> []"
  by (subst QString_split.simps) (simp split: option.splits)

lemma joined_Cons: "ps \<noteq> [] \<Longrightarrow> joined sep (p # ps) = p @ sep @ joined sep ps"
  by (cases ps) simp_all

lemma joined_QString_split: "joined sep (QString_split s sep) = s"
proof (induction s sep rule: QString_split.induct)
  case (1 s sep)
  show ?case
  proof (cases "sep = []")
    case True
    then show ?thesis by (subst QString_split.simps) simp
  next
    case False
    show ?thesis
    proof (cases "QString_indexOf s sep")
      case None
      with False show ?thesis by (subst QString_split.simps) simp
    next
      case (Some i)
      have "joined sep (QString_split s sep) =
          take i s @ sep @ joined sep (QString_split (drop (i + length sep) s) sep)"
        using False Some
        by (subst QString_split.simps) (simp add: joined_Cons QString_split_not_Nil)
      also have "\<dots> = take i s @ sep @ drop (i + length sep) s"
        using "1.IH" [OF False Some] by simp
      also have "\<dots> = s"
        using QString_indexOf_found [OF Some] by simp
      finally show ?thesis .
    qed
  qed
qed

lemma QString_indexOf_char_None: "QString_indexOf s [c] = None \<Longrightarrow> c \<notin> set s"
  by (induction s) (auto split: if_splits)

lemma QString_indexOf_char_Some: "QString_indexOf s [c] = Some i \<Longrightarrow> c \<notin> set (take i s)"
proof (induction s arbitrary: i)
  case Nil
  then show ?case by simp
next
  case (Cons x xs)
  then show ?case by (cases "x = c") auto
qed

lemma QString_split_char_free: "p \<in> set (QString_split s [c]) \<Longrightarrow> c \<notin> set p"
proof (induction s "[c]" arbitrary: p rule: QString_split.induct)
  case (1 s)
  show ?case
  proof (cases "QString_indexOf s [c]")
    case None
    with "1.prems" have "p = s"
      by (subst (asm) QString_split.simps) simp
    with None show ?thesis by (simp add: QString_indexOf_char_None)
  next
    case (Some i)
    with "1.prems" have "p = take i s \<or> p \<in> set (QString_split (drop (i + 1) s) [c])"
      by (subst (asm) QString_split.simps) simp
    then show ?thesis
    proof
      assume "p = take i s"
      with Some show ?thesis by (simp add: QString_indexOf_char_Some)
    next
      assume "p \<in> set (QString_split (drop (i + 1) s) [c])"
      with "1.hyps" [OF _ Some] show ?thesis by simp
    qed
  qed
qed

text \<open>
  Claim C9. The request line is split at each single space: the parts joined by a
  space are the line, and no part holds a space. With a number of parts other than
  three the function is \<open>abortWithError MalformedRequestLine\<close>; with three parts and a
  third that is neither \<open>HTTP/1.0\<close> nor \<open>HTTP/1.1\<close> it is
  \<open>abortWithError InvalidHttpVersion\<close>; in both failures method and URI stay as they
  were. Otherwise it stores the first part as method and the second as URI, and
  changes nothing else.
\<close>

theorem parseRequestLine_fields:
  "parts = QString_split line '' '' \<Longrightarrow>
   joined '' '' parts = line \<and> (\<forall>p \<in> set parts. CHR '' '' \<notin> set p) \<and>
   (length parts \<noteq> 3 \<longrightarrow>
      parseRequestLine line d = abortWithError MalformedRequestLine d \<and>
      error (parseRequestLine line d) = MalformedRequestLine) \<and>
   (length parts = 3 \<and> parts ! 2 \<noteq> ''HTTP/1.0'' \<and> parts ! 2 \<noteq> ''HTTP/1.1'' \<longrightarrow>
      parseRequestLine line d = abortWithError InvalidHttpVersion d \<and>
      error (parseRequestLine line d) = InvalidHttpVersion) \<and>
   (length parts \<noteq> 3 \<or> (parts ! 2 \<noteq> ''HTTP/1.0'' \<and> parts ! 2 \<noteq> ''HTTP/1.1'') \<longrightarrow>
      requestMethod (parseRequestLine line d) = requestMethod d \<and>
      requestUri (parseRequestLine line d) = requestUri d) \<and>
   (length parts = 3 \<and> (parts ! 2 = ''HTTP/1.0'' \<or> parts ! 2 = ''HTTP/1.1'') \<longrightarrow>
      parseRequestLine line d = d\<lparr>requestMethod := parts ! 0, requestUri := parts ! 1\<rparr> \<and>
      error (parseRequestLine line d) = error d)"
proof -
  assume parts: "parts = QString_split line '' ''"
  have "joined '' '' parts = line"
    unfolding parts by (rule joined_QString_split)
  moreover have "\<forall>p \<in> set parts. CHR '' '' \<notin> set p"
    unfolding parts using QString_split_char_free by blast
  moreover have "error (abortWithError e d) = e \<and>
      requestMethod (abortWithError e d) = requestMethod d \<and>
      requestUri (abortWithError e d) = requestUri d" for e
    by (cases e) (simp_all add: abortWithError_def emit_def)
  ultimately show ?thesis
    using parts by (simp add: parseRequestLine_def Let_def)
qed

theorem parseRequestLine_fields_witness:
  "requestMethod (parseRequestLine ''GET /foo HTTP/1.1'' init) = ''GET'' \<and>
   requestUri (parseRequestLine ''GET /foo HTTP/1.1'' init) = ''/foo'' \<and>
   error (parseRequestLine ''GET /foo HTTP/1.1'' init) = NoError \<and>
   error (parseRequestLine ''GET /foo'' init) = MalformedRequestLine \<and>
   requestMethod (parseRequestLine ''GET /foo'' init) = [] \<and>
   error (parseRequestLine ''GET /foo FOO/9.9'' init) = InvalidHttpVersion \<and>
   requestUri (parseRequestLine ''GET /foo FOO/9.9'' init) = []"
proof -
  have a: "QString_split ''GET /foo HTTP/1.1'' '' '' = [''GET'', ''/foo'', ''HTTP/1.1'']"
    by (simp add: QString_split.simps)
  have b: "QString_split ''GET /foo'' '' '' = [''GET'', ''/foo'']"
    by (simp add: QString_split.simps)
  have c: "QString_split ''GET /foo FOO/9.9'' '' '' = [''GET'', ''/foo'', ''FOO/9.9'']"
    by (simp add: QString_split.simps)
  have i: "requestMethod init = [] \<and> requestUri init = [] \<and> error init = NoError"
    by (simp add: init_def)
  from parseRequestLine_fields [OF a [symmetric], of init]
  have "parseRequestLine ''GET /foo HTTP/1.1'' init =
      init\<lparr>requestMethod := ''GET'', requestUri := ''/foo''\<rparr>"
    by simp
  with i have ok: "requestMethod (parseRequestLine ''GET /foo HTTP/1.1'' init) = ''GET'' \<and>
      requestUri (parseRequestLine ''GET /foo HTTP/1.1'' init) = ''/foo'' \<and>
      error (parseRequestLine ''GET /foo HTTP/1.1'' init) = NoError"
    by simp
  from parseRequestLine_fields [OF b [symmetric], of init] i
  have two: "error (parseRequestLine ''GET /foo'' init) = MalformedRequestLine \<and>
      requestMethod (parseRequestLine ''GET /foo'' init) = []"
    by auto
  from parseRequestLine_fields [OF c [symmetric], of init] i
  have version: "error (parseRequestLine ''GET /foo FOO/9.9'' init) = InvalidHttpVersion \<and>
      requestUri (parseRequestLine ''GET /foo FOO/9.9'' init) = []"
    by auto
  from ok two version show ?thesis by blast
qed

section \<open>The serialized response headers\<close>

lemma appendHeaders_concat:
  "appendHeaders headers m = headers @ concat (map (\<lambda>(k, v). k @ '': '' @ v) m)"
  by (induction headers m rule: appendHeaders.induct) simp_all

lemma serializedHeaders_serialization:
  "serializedHeaders d = serialization (responseStatusCode d) (responseHeaders d)"
  by (simp add: serializedHeaders_def serialization_def appendHeaders_concat)

lemma responseHeaders_perform:
  "responseHeaders (perform c d) =
     (case c of SetResponseHeader header val \<Rightarrow> QMap_insert header val (responseHeaders d)
      | _ \<Rightarrow> responseHeaders d)"
proof (cases c)
  case (DataArrived bytes)
  have "responseHeaders (parseRequestHeaders h (d\<lparr>buffer := buffer d @ bytes\<rparr>)) =
      responseHeaders d" for h
    using unparsed_parseRequestHeaders [of "d\<lparr>buffer := buffer d @ bytes\<rparr>" h]
    by (simp add: unparsed_def)
  with DataArrived show ?thesis
    by (simp add: onReadyRead_def emit_def Let_def split: option.splits)
qed (simp_all add: close_def writeData_def writeResponseHeaders_def
      QHttpSocket_requestMethod_def QHttpSocket_requestUri_def QHttpSocket_requestHeaders_def
      QHttpSocket_requestHeader_def warnUnlessRead_def qWarning_def
      setResponseStatusCode_def setResponseHeader_def readData_def Let_def)

lemma sorted_responseHeaders_run:
  "sorted_wrt QString_less (map fst (responseHeaders d)) \<Longrightarrow>
   sorted_wrt QString_less (map fst (responseHeaders (run cs d)))"
proof (induction cs arbitrary: d)
  case Nil
  then show ?case by simp
next
  case (Cons c cs)
  have "sorted_wrt QString_less (map fst (responseHeaders (perform c d)))"
    unfolding responseHeaders_perform using Cons.prems
    by (cases c) (simp_all add: sorted_QMap_insert)
  then show ?case
    using Cons.IH by simp
qed

lemma map_of_responseHeaders_run:
  "map_of (responseHeaders (run cs d)) = map_of (rev (headersSet cs) @ responseHeaders d)"
proof (induction cs arbitrary: d)
  case Nil
  show ?case by simp
next
  case (Cons c cs)
  have "map_of (rev (headersSet cs) @ responseHeaders (perform c d)) =
      map_of (rev (headersSet (c # cs)) @ responseHeaders d)"
    unfolding responseHeaders_perform
    by (cases c) (simp_all add: map_of_QMap_insert)
  then show ?case
    by (simp add: Cons.IH)
qed

text \<open>
  Claim C6, as stated, fails: after header \<open>B\<close> is set and then header \<open>A\<close>, the
  serialization has \<open>A\<close> before \<open>B\<close>, which is not the order of insertion.
\<close>

theorem serializedHeaders_key_order_counterexample:
  "serializedHeaders (run [SetResponseHeader ''B'' ''2'', SetResponseHeader ''A'' ''1''] init) =
     ''HTTP/1.0 200 OK'' @ [CHR 0x0D, CHR 0x0A] @ ''A: 1B: 2'' \<and>
   serialization ''200 OK'' [(''B'', ''2''), (''A'', ''1'')] =
     ''HTTP/1.0 200 OK'' @ [CHR 0x0D, CHR 0x0A] @ ''B: 2A: 1'' \<and>
   serializedHeaders (run [SetResponseHeader ''B'' ''2'', SetResponseHeader ''A'' ''1''] init) \<noteq>
     serialization ''200 OK'' (headersSet [SetResponseHeader ''B'' ''2'', SetResponseHeader ''A'' ''1''])"
  by (simp add: serializedHeaders_def serialization_def setResponseHeader_def init_def)

text \<open>
  Claim C6, amended. After every sequence of calls the serialization is the status
  line \<open>HTTP/1.0\<close>, space, status code, line end, followed by name, colon, space and
  value of each response header, with no line end after a header and no blank line
  at the end; the headers come in ascending order of their names, as the map keeps
  them, each name once and with the value set last.
\<close>

theorem serializedHeaders_key_order:
  "serializedHeaders (run cs init) =
     serialization (responseStatusCode (run cs init)) (responseHeaders (run cs init)) \<and>
   sorted_wrt QString_less (map fst (responseHeaders (run cs init))) \<and>
   map_of (responseHeaders (run cs init)) = map_of (rev (headersSet cs))"
proof -
  have "sorted_wrt QString_less (map fst (responseHeaders init))"
    by (simp add: init_def)
  then have "sorted_wrt QString_less (map fst (responseHeaders (run cs init)))"
    by (rule sorted_responseHeaders_run)
  moreover have "map_of (responseHeaders (run cs init)) = map_of (rev (headersSet cs))"
    by (simp add: map_of_responseHeaders_run init_def)
  ultimately show ?thesis
    by (simp add: serializedHeaders_serialization)
qed

section \<open>The request header lines\<close>

lemma requestHeaders_abortWithError: "requestHeaders (abortWithError e d) = requestHeaders d"
  by (cases e) (simp_all add: abortWithError_def emit_def)

lemma error_abortWithError: "error (abortWithError e d) = e"
  by (cases e) (simp_all add: abortWithError_def emit_def)

lemma requestHeaders_parseRequestLine:
  "requestHeaders (parseRequestLine line d) = requestHeaders d"
  by (simp add: parseRequestLine_def Let_def requestHeaders_abortWithError)

lemma requestHeaders_parseRequestHeader:
  "requestHeaders (parseRequestHeader header d) =
     (case headerEntry header of
        None \<Rightarrow> requestHeaders d
      | Some (k, v) \<Rightarrow> QMap_insert k v (requestHeaders d))"
  by (simp add: parseRequestHeader_def headerEntry_def requestHeaders_abortWithError
      split: option.splits)

lemma map_of_requestHeaders_foldl:
  "map_of (requestHeaders (foldl (\<lambda>d' header. parseRequestHeader header d') d lines)) =
     map_of (rev (List.map_filter headerEntry lines) @ requestHeaders d)"
proof (induction lines arbitrary: d)
  case Nil
  show ?case by (simp add: map_filter_simps)
next
  case (Cons header lines)
  have "map_of (rev (List.map_filter headerEntry lines) @
        requestHeaders (parseRequestHeader header d)) =
      map_of (rev (List.map_filter headerEntry (header # lines)) @ requestHeaders d)"
    by (cases "headerEntry header")
      (auto simp add: requestHeaders_parseRequestHeader map_filter_simps map_of_QMap_insert)
  then show ?case
    by (simp add: Cons.IH)
qed

lemma map_of_rev_last:
  "map_of (rev es @ m) k =
     (if filter (\<lambda>e. fst e = k) es = [] then map_of m k
      else Some (snd (last (filter (\<lambda>e. fst e = k) es))))"
proof (induction es rule: rev_induct)
  case Nil
  show ?case by simp
next
  case (snoc e es)
  obtain a b where e: "e = (a, b)" by (cases e)
  show ?case
  proof (cases "a = k")
    case True
    with e show ?thesis by simp
  next
    case False
    with e snoc.IH show ?thesis by simp
  qed
qed

lemma QString_indexOf_first:
  "QString_indexOf s [c] = Some j \<Longrightarrow> c \<notin> set (take j s) \<and> j < length s \<and> s ! j = c"
proof (induction s arbitrary: j)
  case Nil
  then show ?case by simp
next
  case (Cons x xs)
  then show ?case by (cases "x = c") auto
qed

text \<open>
  Claim C10. A header line without a colon makes \<open>parseRequestHeader\<close> abort with
  \<open>MalformedRequestHeader\<close> and store nothing. With its first colon at offset \<open>j\<close>, the
  line stores the trimmed text after the colon under the trimmed, lower-cased text
  before it, replacing the value that name had; a lookup then returns the new value
  for that name and the former value for every other. A lookup does not depend on
  the case of the name asked for, and after a header block is parsed it returns the
  value of the last line of the block with that name.
\<close>

theorem parseRequestHeader_entry:
  "(QString_indexOf header '':'' = None \<longrightarrow>
      parseRequestHeader header d = abortWithError MalformedRequestHeader d \<and>
      error (parseRequestHeader header d) = MalformedRequestHeader \<and>
      requestHeaders (parseRequestHeader header d) = requestHeaders d) \<and>
   (QString_indexOf header '':'' = Some j \<longrightarrow>
      CHR '':'' \<notin> set (take j header) \<and> j < length header \<and> header ! j = CHR '':'' \<and>
      parseRequestHeader header d =
        d\<lparr>requestHeaders :=
            QMap_insert (QString_toLower (QString_trimmed (take j header)))
              (QString_trimmed (drop (j + 1) header)) (requestHeaders d)\<rparr> \<and>
      snd (QHttpSocket_requestHeader name (parseRequestHeader header d)) =
        (if QString_toLower name = QString_toLower (QString_trimmed (take j header))
         then QString_trimmed (drop (j + 1) header)
         else snd (QHttpSocket_requestHeader name d))) \<and>
   (QString_toLower name = QString_toLower name' \<longrightarrow>
      snd (QHttpSocket_requestHeader name d) = snd (QHttpSocket_requestHeader name' d)) \<and>
   (QString_split headers [CHR 0x0D, CHR 0x0A] = first # lines \<longrightarrow>
      snd (QHttpSocket_requestHeader name (parseRequestHeaders headers d)) =
        (case lastOccurrence name lines of
           None \<Rightarrow> snd (QHttpSocket_requestHeader name d)
         | Some v \<Rightarrow> v))"
proof (intro conjI impI)
  assume none: "QString_indexOf header '':'' = None"
  then show "parseRequestHeader header d = abortWithError MalformedRequestHeader d"
    by (simp add: parseRequestHeader_def)
  then show "error (parseRequestHeader header d) = MalformedRequestHeader"
    and "requestHeaders (parseRequestHeader header d) = requestHeaders d"
    by (simp_all add: error_abortWithError requestHeaders_abortWithError)
next
  assume some: "QString_indexOf header '':'' = Some j"
  from QString_indexOf_first [OF some]
  show "CHR '':'' \<notin> set (take j header)" and "j < length header" and "header ! j = CHR '':''"
    by simp_all
  from some show "parseRequestHeader header d =
      d\<lparr>requestHeaders :=
          QMap_insert (QString_toLower (QString_trimmed (take j header)))
            (QString_trimmed (drop (j + 1) header)) (requestHeaders d)\<rparr>"
    by (simp add: parseRequestHeader_def)
  then show "snd (QHttpSocket_requestHeader name (parseRequestHeader header d)) =
      (if QString_toLower name = QString_toLower (QString_trimmed (take j header))
       then QString_trimmed (drop (j + 1) header)
       else snd (QHttpSocket_requestHeader name d))"
    by (simp add: QHttpSocket_requestHeader_def QMap_value_def map_of_QMap_insert)
next
  assume "QString_toLower name = QString_toLower name'"
  then show "snd (QHttpSocket_requestHeader name d) = snd (QHttpSocket_requestHeader name' d)"
    by (simp add: QHttpSocket_requestHeader_def)
next
  assume split: "QString_split headers [CHR 0x0D, CHR 0x0A] = first # lines"
  have "map_of (requestHeaders (parseRequestHeaders headers d)) =
      map_of (rev (List.map_filter headerEntry lines) @ requestHeaders d)"
    using split
    by (simp add: parseRequestHeaders_def map_of_requestHeaders_foldl
        requestHeaders_parseRequestLine)
  then have "map_of (requestHeaders (parseRequestHeaders headers d)) (QString_toLower name) =
      (if filter (\<lambda>e. fst e = QString_toLower name) (List.map_filter headerEntry lines) = []
       then map_of (requestHeaders d) (QString_toLower name)
       else Some (snd (last (filter (\<lambda>e. fst e = QString_toLower name)
         (List.map_filter headerEntry lines)))))"
    by (simp only: map_of_rev_last)
  then show "snd (QHttpSocket_requestHeader name (parseRequestHeaders headers d)) =
      (case lastOccurrence name lines of
         None \<Rightarrow> snd (QHttpSocket_requestHeader name d)
       | Some v \<Rightarrow> v)"
    by (simp add: QHttpSocket_requestHeader_def QMap_value_def lastOccurrence_def Let_def)
qed


theorem parseRequestHeader_entry_witness:
  "error (parseRequestHeader ''X-Test no-colon'' init) = MalformedRequestHeader \<and>
   requestHeaders (parseRequestHeader ''X-Test no-colon'' init) = [] \<and>
   snd (QHttpSocket_requestHeader ''CONTENT-TYPE''
     (parseRequestHeader ''Content-Type: text/plain'' init)) = ''text/plain'' \<and>
   snd (QHttpSocket_requestHeader ''Content-TYPE''
     (parseRequestHeaders
       (''GET / HTTP/1.0'' @ [CHR 0x0D, CHR 0x0A] @ ''Content-Type: text/plain'' @
        [CHR 0x0D, CHR 0x0A] @ ''X-Test no-colon'' @ [CHR 0x0D, CHR 0x0A] @
        ''CONTENT-type :  text/html '') init)) = ''text/html''"
proof -
  have none: "QString_indexOf ''X-Test no-colon'' '':'' = None"
    by simp
  have some: "QString_indexOf ''Content-Type: text/plain'' '':'' = Some 12"
    by simp
  have lines: "QString_split
      (''GET / HTTP/1.0'' @ [CHR 0x0D, CHR 0x0A] @ ''Content-Type: text/plain'' @
       [CHR 0x0D, CHR 0x0A] @ ''X-Test no-colon'' @ [CHR 0x0D, CHR 0x0A] @
       ''CONTENT-type :  text/html '') [CHR 0x0D, CHR 0x0A] =
      ''GET / HTTP/1.0'' #
      [''Content-Type: text/plain'', ''X-Test no-colon'', ''CONTENT-type :  text/html '']"
    by (simp add: QString_split.simps)
  have last: "lastOccurrence ''Content-TYPE''
      [''Content-Type: text/plain'', ''X-Test no-colon'', ''CONTENT-type :  text/html ''] =
      Some ''text/html''"
    by code_simp
  have key: "QString_toLower ''CONTENT-TYPE'' =
      QString_toLower (QString_trimmed (take 12 ''Content-Type: text/plain''))"
    by code_simp
  have val: "QString_trimmed (drop (12 + 1) ''Content-Type: text/plain'') = ''text/plain''"
    by code_simp
  have empty: "requestHeaders init = []"
    by (simp add: init_def)
  from parseRequestHeader_entry [where header = "''X-Test no-colon''" and d = init,
      THEN conjunct1, THEN mp, OF none] empty
  have first: "error (parseRequestHeader ''X-Test no-colon'' init) = MalformedRequestHeader \<and>
      requestHeaders (parseRequestHeader ''X-Test no-colon'' init) = []"
    by auto
  from parseRequestHeader_entry [where header = "''Content-Type: text/plain''" and d = init
      and j = 12 and name = "''CONTENT-TYPE''", THEN conjunct2, THEN conjunct1, THEN mp, OF some]
  have "snd (QHttpSocket_requestHeader ''CONTENT-TYPE''
      (parseRequestHeader ''Content-Type: text/plain'' init)) =
      (if QString_toLower ''CONTENT-TYPE'' =
          QString_toLower (QString_trimmed (take 12 ''Content-Type: text/plain''))
       then QString_trimmed (drop (12 + 1) ''Content-Type: text/plain'')
       else snd (QHttpSocket_requestHeader ''CONTENT-TYPE'' init))"
    by blast
  with key val have second: "snd (QHttpSocket_requestHeader ''CONTENT-TYPE''
      (parseRequestHeader ''Content-Type: text/plain'' init)) = ''text/plain''"
    by simp
  from parseRequestHeader_entry [where d = init and name = "''Content-TYPE''",
      THEN conjunct2, THEN conjunct2, THEN conjunct2, THEN mp, OF lines] last
  have third: "snd (QHttpSocket_requestHeader ''Content-TYPE''
     (parseRequestHeaders
       (''GET / HTTP/1.0'' @ [CHR 0x0D, CHR 0x0A] @ ''Content-Type: text/plain'' @
        [CHR 0x0D, CHR 0x0A] @ ''X-Test no-colon'' @ [CHR 0x0D, CHR 0x0A] @
        ''CONTENT-type :  text/html '') init)) = ''text/html''"
    by simp
  from first second third show ?thesis by blast
qed

section \<open>The parser over a connection\<close>

lemma reports_append: "reports fs a b \<Longrightarrow> reports gs b c \<Longrightarrow> reports (fs @ gs) a c"
  by (simp add: reports_def)

lemma reports_abortWithError: "reports [e] d (abortWithError e d)"
  by (cases e) (simp_all add: reports_def abortWithError_def emit_def)

lemma reports_parseRequestLine: "reports (requestLineFault line) d (parseRequestLine line d)"
  by (simp add: reports_def parseRequestLine_def requestLineFault_def Let_def
      abortWithError_def emit_def)

lemma reports_parseRequestHeader:
  "reports (requestHeaderFault header) d (parseRequestHeader header d)"
  by (simp add: reports_def parseRequestHeader_def requestHeaderFault_def
      abortWithError_def emit_def split: option.splits)

lemma reports_foldl:
  "reports (concat (map requestHeaderFault parts)) d
     (foldl (\<lambda>d' header. parseRequestHeader header d') d parts)"
proof (induction parts arbitrary: d)
  case Nil
  show ?case by (simp add: reports_def)
next
  case (Cons header parts)
  have "reports (requestHeaderFault header @ concat (map requestHeaderFault parts)) d
      (foldl (\<lambda>d' header. parseRequestHeader header d') (parseRequestHeader header d) parts)"
    using reports_parseRequestHeader Cons.IH by (rule reports_append)
  then show ?case by simp
qed

lemma reports_parseRequestHeaders:
  "reports (parseFaults headers) d (parseRequestHeaders headers d)"
proof (cases "QString_split headers [CHR 0x0D, CHR 0x0A]")
  case Nil
  then show ?thesis by (simp add: QString_split_not_Nil)
next
  case (Cons first parts)
  have "reports (requestLineFault first @ concat (map requestHeaderFault parts)) d
      (foldl (\<lambda>d' header. parseRequestHeader header d') (parseRequestLine first d) parts)"
    using reports_parseRequestLine reports_foldl by (rule reports_append)
  with Cons show ?thesis by (simp add: parseRequestHeaders_def parseFaults_def)
qed

lemma parseFaults_not_NoError: "NoError \<notin> set (parseFaults headers)"
proof -
  have "NoError \<notin> set (requestLineFault line)" for line
    by (simp add: requestLineFault_def Let_def)
  moreover have "NoError \<notin> set (requestHeaderFault header)" for header
    by (simp add: requestHeaderFault_def)
  ultimately show ?thesis
    by (cases "QString_split headers [CHR 0x0D, CHR 0x0A]") (simp_all add: parseFaults_def)
qed

lemma request_parseRequestLine:
  "request d = request d' \<Longrightarrow> request (parseRequestLine line d) = request (parseRequestLine line d')"
  by (simp add: request_def parseRequestLine_def Let_def abortWithError_def emit_def)

lemma request_parseRequestHeader:
  "request d = request d' \<Longrightarrow>
   request (parseRequestHeader header d) = request (parseRequestHeader header d')"
  by (simp add: request_def parseRequestHeader_def abortWithError_def emit_def
      split: option.splits)

lemma request_foldl:
  "request d = request d' \<Longrightarrow>
   request (foldl (\<lambda>d' header. parseRequestHeader header d') d parts) =
   request (foldl (\<lambda>d' header. parseRequestHeader header d') d' parts)"
proof (induction parts arbitrary: d d')
  case Nil
  then show ?case by simp
next
  case (Cons header parts)
  from Cons.prems have "request (parseRequestHeader header d) = request (parseRequestHeader header d')"
    by (rule request_parseRequestHeader)
  then have "request (foldl (\<lambda>d' header. parseRequestHeader header d') (parseRequestHeader header d) parts) =
      request (foldl (\<lambda>d' header. parseRequestHeader header d') (parseRequestHeader header d') parts)"
    by (rule Cons.IH)
  then show ?case
    by simp
qed

lemma request_parseRequestHeaders:
  assumes "request d = request d'"
  shows "request (parseRequestHeaders headers d) = request (parseRequestHeaders headers d')"
proof (cases "QString_split headers [CHR 0x0D, CHR 0x0A]")
  case Nil
  with assms show ?thesis by (simp only: parseRequestHeaders_def list.case)
next
  case (Cons first parts)
  from assms have "request (parseRequestLine first d) = request (parseRequestLine first d')"
    by (rule request_parseRequestLine)
  then have "request (foldl (\<lambda>d' header. parseRequestHeader header d') (parseRequestLine first d) parts) =
      request (foldl (\<lambda>d' header. parseRequestHeader header d') (parseRequestLine first d') parts)"
    by (rule request_foldl)
  then show ?thesis
    unfolding parseRequestHeaders_def Cons by (simp only: list.case)
qed

lemma onReadyRead_found:
  assumes "\<not> requestHeadersRead d" and "QString_indexOf (buffer d @ bytes) CRLFCRLF = Some i"
  shows "requestHeadersRead (onReadyRead bytes d)"
    and "request (onReadyRead bytes d) =
           request (parseRequestHeaders (QString_fromByteArray (take i (buffer d @ bytes))) d)"
    and "emitted (onReadyRead bytes d) =
           emitted d @ map errorChanged (parseFaults (QString_fromByteArray (take i (buffer d @ bytes)))) @
           [requestHeadersParsed]"
    and "count_list (emitted (onReadyRead bytes d)) requestHeadersParsed =
           Suc (count_list (emitted d) requestHeadersParsed)"
    and "buffer (onReadyRead bytes d) = drop (i + 4) (buffer d @ bytes)"
proof -
  let ?d1 = "d\<lparr>buffer := buffer d @ bytes\<rparr>"
  let ?d2 = "parseRequestHeaders (QString_fromByteArray (take i (buffer d @ bytes))) ?d1"
  have eq: "onReadyRead bytes d =
      emit requestHeadersParsed (?d2\<lparr>buffer := drop (i + 4) (buffer ?d2), requestHeadersRead := True\<rparr>)"
    using assms by (simp add: onReadyRead_def Let_def)
  have un: "unparsed ?d1 ?d2"
    by (rule unparsed_parseRequestHeaders)
  have rep: "reports (parseFaults (QString_fromByteArray (take i (buffer d @ bytes)))) ?d1 ?d2"
    by (rule reports_parseRequestHeaders)
  have "request ?d1 = request d"
    by (simp add: request_def)
  then have req: "request ?d2 = request (parseRequestHeaders (QString_fromByteArray (take i (buffer d @ bytes))) d)"
    by (rule request_parseRequestHeaders)
  show "requestHeadersRead (onReadyRead bytes d)"
    unfolding eq by (simp add: emit_def)
  show "request (onReadyRead bytes d) =
      request (parseRequestHeaders (QString_fromByteArray (take i (buffer d @ bytes))) d)"
    unfolding eq using req by (simp add: emit_def request_def)
  show "emitted (onReadyRead bytes d) =
      emitted d @ map errorChanged (parseFaults (QString_fromByteArray (take i (buffer d @ bytes)))) @
      [requestHeadersParsed]"
    unfolding eq using rep by (simp add: emit_def reports_def)
  show "count_list (emitted (onReadyRead bytes d)) requestHeadersParsed =
      Suc (count_list (emitted d) requestHeadersParsed)"
    unfolding eq using un by (simp add: emit_def unparsed_def)
  show "buffer (onReadyRead bytes d) = drop (i + 4) (buffer d @ bytes)"
    unfolding eq using un by (simp add: emit_def unparsed_def)
qed

lemma onReadyRead_waiting:
  assumes "\<not> requestHeadersRead d" and "QString_indexOf (buffer d @ bytes) CRLFCRLF = None"
  shows "onReadyRead bytes d = d\<lparr>buffer := buffer d @ bytes\<rparr>"
  using assms by (simp add: onReadyRead_def Let_def)

lemma onReadyRead_body:
  assumes "requestHeadersRead d"
  shows "onReadyRead bytes d = emit readyRead (d\<lparr>buffer := buffer d @ bytes\<rparr>)"
  using assms by (simp add: onReadyRead_def Let_def)

lemma parserAt_onReadyRead:
  assumes "parserAt data d"
  shows "parserAt (data @ bytes) (onReadyRead bytes d)"
proof (cases "QString_indexOf data CRLFCRLF")
  case (Some i)
  with assms have d: "requestHeadersRead d"
      "request d = request (parseRequestHeaders (QString_fromByteArray (take i data)) init)"
      "count_list (emitted d) requestHeadersParsed = 1"
    by (simp_all add: parserAt_def)
  have found: "QString_indexOf (data @ bytes) CRLFCRLF = Some i"
    using Some by (rule QString_indexOf_append)
  have "i + length CRLFCRLF \<le> length data"
    using Some by (rule QString_indexOf_bound)
  then have "i \<le> length data"
    by simp
  moreover have "request (emit readyRead (d\<lparr>buffer := buffer d @ bytes\<rparr>)) = request d"
    by (simp add: request_def emit_def)
  moreover have "count_list (emitted (emit readyRead (d\<lparr>buffer := buffer d @ bytes\<rparr>)))
      requestHeadersParsed = count_list (emitted d) requestHeadersParsed"
    by (simp add: emit_def)
  moreover have "requestHeadersRead (emit readyRead (d\<lparr>buffer := buffer d @ bytes\<rparr>))"
    using d(1) by (simp add: emit_def)
  ultimately show ?thesis
    using d found by (simp add: parserAt_def onReadyRead_body)
next
  case None
  with assms have d: "\<not> requestHeadersRead d" "buffer d = data" "request d = request init"
      "count_list (emitted d) requestHeadersParsed = 0"
    by (simp_all add: parserAt_def)
  show ?thesis
  proof (cases "QString_indexOf (data @ bytes) CRLFCRLF")
    case None
    with d show ?thesis
      by (simp add: parserAt_def onReadyRead_waiting request_def)
  next
    case (Some i)
    then have found: "QString_indexOf (buffer d @ bytes) CRLFCRLF = Some i"
      using d(2) by simp
    have "request (parseRequestHeaders (QString_fromByteArray (take i (data @ bytes))) d) =
        request (parseRequestHeaders (QString_fromByteArray (take i (data @ bytes))) init)"
      using d(3) by (rule request_parseRequestHeaders)
    with Some d onReadyRead_found(1,2,4) [OF d(1) found] show ?thesis
      by (simp add: parserAt_def)
  qed
qed

lemma parserAt_perform: "parserAt data d \<Longrightarrow> parserAt (data @ received [c]) (perform c d)"
proof (cases c)
  case (DataArrived bytes)
  assume "parserAt data d"
  then have "parserAt (data @ bytes) (onReadyRead bytes d)"
    by (rule parserAt_onReadyRead)
  with DataArrived show ?thesis by simp
qed (auto simp add: parserAt_def request_def close_def writeData_def writeResponseHeaders_def
      QHttpSocket_requestMethod_def QHttpSocket_requestUri_def QHttpSocket_requestHeaders_def
      QHttpSocket_requestHeader_def warnUnlessRead_def qWarning_def
      setResponseStatusCode_def setResponseHeader_def readData_def Let_def
      split: option.splits)

lemma received_Cons: "received (c # cs) = received [c] @ received cs"
  by (cases c) simp_all

lemma parserAt_run: "parserAt data d \<Longrightarrow> parserAt (data @ received cs) (run cs d)"
proof (induction cs arbitrary: data d)
  case Nil
  then show ?case by simp
next
  case (Cons c cs)
  from Cons.prems have "parserAt (data @ received [c]) (perform c d)"
    by (rule parserAt_perform)
  then have "parserAt ((data @ received [c]) @ received cs) (run cs (perform c d))"
    by (rule Cons.IH)
  then show ?case
    by (simp add: received_Cons [of c cs])
qed

lemma parserAt_init: "parserAt [] init"
  by (simp add: parserAt_def init_def CRLFCRLF_def)

lemma parserAt_run_init: "parserAt (received cs) (run cs init)"
  using parserAt_run [OF parserAt_init, of cs] by simp


lemma request_run:
  "request (run cs init) =
     (case QString_indexOf (received cs) CRLFCRLF of
        None \<Rightarrow> request init
      | Some i \<Rightarrow> request (parseRequestHeaders (QString_fromByteArray (take i (received cs))) init))"
  using parserAt_run_init [of cs] by (simp add: parserAt_def split: option.splits)

lemma received_chunks: "received (map DataArrived chunks) = concat chunks"
  by (induction chunks) simp_all

lemma requestHeadersRead_run:
  "requestHeadersRead (run cs init) = (QString_indexOf (received cs) CRLFCRLF \<noteq> None)"
  using parserAt_run_init [of cs] by (auto simp add: parserAt_def split: option.splits)

lemma error_parseRequestHeaders:
  "error (parseRequestHeaders headers d) =
     (if parseFaults headers = [] then error d else last (parseFaults headers))"
  using reports_parseRequestHeaders [of headers d] by (simp add: reports_def)

lemma error_perform: "error d \<noteq> NoError \<Longrightarrow> error (perform c d) \<noteq> NoError"
proof (cases c)
  case (DataArrived bytes)
  assume set: "error d \<noteq> NoError"
  have parsed: "error (parseRequestHeaders h (d\<lparr>buffer := buffer d @ bytes\<rparr>)) \<noteq> NoError" for h
  proof (cases "parseFaults h = []")
    case True
    with set show ?thesis by (simp add: error_parseRequestHeaders)
  next
    case False
    then have "last (parseFaults h) \<in> set (parseFaults h)"
      by (rule last_in_set)
    then have "last (parseFaults h) \<noteq> NoError"
      using parseFaults_not_NoError [of h] by metis
    with False show ?thesis by (simp add: error_parseRequestHeaders)
  qed
  from set DataArrived show ?thesis
    by (simp add: onReadyRead_def Let_def emit_def parsed split: option.splits)
qed (simp_all add: close_def writeData_def writeResponseHeaders_def
      QHttpSocket_requestMethod_def QHttpSocket_requestUri_def QHttpSocket_requestHeaders_def
      QHttpSocket_requestHeader_def warnUnlessRead_def qWarning_def
      setResponseStatusCode_def setResponseHeader_def readData_def Let_def)

lemma error_run: "error d \<noteq> NoError \<Longrightarrow> error (run cs d) \<noteq> NoError"
proof (induction cs arbitrary: d)
  case Nil
  then show ?case by simp
next
  case (Cons c cs)
  from Cons.prems have "error (perform c d) \<noteq> NoError"
    by (rule error_perform)
  then have "error (run cs (perform c d)) \<noteq> NoError"
    by (rule Cons.IH)
  then show ?case by simp
qed

text \<open>
  Claim C1, as stated, fails: the bytes \<open>GET /foo\<close> and the delimiter hold a complete
  header block whose request line has two parts; \<open>errorChanged\<close> is emitted, and then
  \<open>requestHeadersParsed\<close> is emitted as well and \<open>requestHeadersRead\<close> is set.
\<close>

theorem requestHeadersParsed_counterexample:
  "QString_indexOf (''GET /foo'' @ CRLFCRLF) CRLFCRLF = Some 8 \<and>
   parseFaults ''GET /foo'' = [MalformedRequestLine] \<and>
   emitted (run [DataArrived (''GET /foo'' @ CRLFCRLF)] init) =
     [errorChanged MalformedRequestLine, requestHeadersParsed] \<and>
   error (run [DataArrived (''GET /foo'' @ CRLFCRLF)] init) = MalformedRequestLine \<and>
   requestHeadersRead (run [DataArrived (''GET /foo'' @ CRLFCRLF)] init)"
  by (simp add: CRLFCRLF_def parseFaults_def requestLineFault_def QString_split.simps
      onReadyRead_def QString_fromByteArray_def init_def parseRequestHeaders_def parseRequestLine_def
      abortWithError_def emit_def)

text \<open>
  Claim C1, amended. At the arrival that completes the delimiter, \<open>onReadyRead\<close>
  emits \<open>errorChanged\<close> for each faulty line of the header block, in order, then sets
  \<open>requestHeadersRead\<close> and emits \<open>requestHeadersParsed\<close>, whether the block had a fault
  or not. Before the delimiter is there it emits nothing; once the headers are read
  it emits \<open>readyRead\<close> only. So over every sequence of calls on a new object
  \<open>requestHeadersParsed\<close> has been emitted once if the delimiter has arrived and not
  at all otherwise.
\<close>

theorem requestHeadersParsed_once:
  "(\<not> requestHeadersRead d \<and> QString_indexOf (buffer d @ bytes) CRLFCRLF = Some i \<longrightarrow>
      emitted (onReadyRead bytes d) =
        emitted d @ map errorChanged (parseFaults (QString_fromByteArray (take i (buffer d @ bytes)))) @
        [requestHeadersParsed] \<and>
      requestHeadersRead (onReadyRead bytes d)) \<and>
   (\<not> requestHeadersRead d \<and> QString_indexOf (buffer d @ bytes) CRLFCRLF = None \<longrightarrow>
      emitted (onReadyRead bytes d) = emitted d \<and>
      \<not> requestHeadersRead (onReadyRead bytes d)) \<and>
   (requestHeadersRead d \<longrightarrow>
      emitted (onReadyRead bytes d) = emitted d @ [readyRead] \<and>
      requestHeadersRead (onReadyRead bytes d)) \<and>
   count_list (emitted (run cs init)) requestHeadersParsed =
     (if QString_indexOf (received cs) CRLFCRLF = None then 0 else 1) \<and>
   requestHeadersRead (run cs init) = (QString_indexOf (received cs) CRLFCRLF \<noteq> None)"
proof (intro conjI impI)
  assume a: "\<not> requestHeadersRead d \<and> QString_indexOf (buffer d @ bytes) CRLFCRLF = Some i"
  then have unread: "\<not> requestHeadersRead d"
    and found: "QString_indexOf (buffer d @ bytes) CRLFCRLF = Some i"
    by simp_all
  show "emitted (onReadyRead bytes d) =
      emitted d @ map errorChanged (parseFaults (QString_fromByteArray (take i (buffer d @ bytes)))) @
      [requestHeadersParsed]"
    using unread found by (rule onReadyRead_found(3))
  show "requestHeadersRead (onReadyRead bytes d)"
    using unread found by (rule onReadyRead_found(1))
next
  assume a: "\<not> requestHeadersRead d \<and> QString_indexOf (buffer d @ bytes) CRLFCRLF = None"
  then show "emitted (onReadyRead bytes d) = emitted d"
    and "\<not> requestHeadersRead (onReadyRead bytes d)"
    by (simp_all add: onReadyRead_waiting)
next
  assume a: "requestHeadersRead d"
  then show "emitted (onReadyRead bytes d) = emitted d @ [readyRead]"
    and "requestHeadersRead (onReadyRead bytes d)"
    by (simp_all add: onReadyRead_body emit_def)
next
  show "count_list (emitted (run cs init)) requestHeadersParsed =
      (if QString_indexOf (received cs) CRLFCRLF = None then 0 else 1)"
    using parserAt_run_init [of cs] by (auto simp add: parserAt_def split: option.splits)
  show "requestHeadersRead (run cs init) = (QString_indexOf (received cs) CRLFCRLF \<noteq> None)"
    by (rule requestHeadersRead_run)
qed


theorem requestHeadersParsed_once_witness:
  "emitted (onReadyRead (''GET /foo'' @ CRLFCRLF) init) =
     [errorChanged MalformedRequestLine, requestHeadersParsed] \<and>
   requestHeadersRead (onReadyRead (''GET /foo'' @ CRLFCRLF) init) \<and>
   emitted (onReadyRead ''GET /foo'' init) = [] \<and>
   \<not> requestHeadersRead (onReadyRead ''GET /foo'' init) \<and>
   emitted (onReadyRead ''hello'' (init\<lparr>requestHeadersRead := True\<rparr>)) = [readyRead] \<and>
   count_list (emitted (run [DataArrived ''GET / HTTP/1.0'', DataArrived [CHR 0x0D, CHR 0x0A, CHR 0x0D],
     DataArrived (CHR 0x0A # ''hello''), DataArrived ''more''] init)) requestHeadersParsed = 1"
proof -
  note t = requestHeadersParsed_once [where d = init and bytes = "''GET /foo'' @ CRLFCRLF" and i = 8]
  note u = requestHeadersParsed_once [where d = init and bytes = "''GET /foo''"]
  note v = requestHeadersParsed_once [where d = "init\<lparr>requestHeadersRead := True\<rparr>"
      and bytes = "''hello''"]
  note w = requestHeadersParsed_once [where cs = "[DataArrived ''GET / HTTP/1.0'',
      DataArrived [CHR 0x0D, CHR 0x0A, CHR 0x0D], DataArrived (CHR 0x0A # ''hello''),
      DataArrived ''more'']"]
  have unread: "\<not> requestHeadersRead init" and none: "emitted init = []"
    by (simp_all add: init_def)
  have found: "QString_indexOf (buffer init @ ''GET /foo'' @ CRLFCRLF) CRLFCRLF = Some 8"
    by (simp add: init_def CRLFCRLF_def)
  have faults: "parseFaults (QString_fromByteArray (take 8 (buffer init @ ''GET /foo'' @ CRLFCRLF))) = [MalformedRequestLine]"
    by (simp add: init_def QString_fromByteArray_def parseFaults_def requestLineFault_def
        QString_split.simps)
  have waiting: "QString_indexOf (buffer init @ ''GET /foo'') CRLFCRLF = None"
    by (simp add: init_def CRLFCRLF_def)
  have arrived: "QString_indexOf (received [DataArrived ''GET / HTTP/1.0'',
      DataArrived [CHR 0x0D, CHR 0x0A, CHR 0x0D], DataArrived (CHR 0x0A # ''hello''),
      DataArrived ''more'']) CRLFCRLF \<noteq> None"
    by (simp add: CRLFCRLF_def)
  from t [THEN conjunct1, THEN mp, OF conjI, OF unread found] faults none
  have one: "emitted (onReadyRead (''GET /foo'' @ CRLFCRLF) init) =
      [errorChanged MalformedRequestLine, requestHeadersParsed] \<and>
      requestHeadersRead (onReadyRead (''GET /foo'' @ CRLFCRLF) init)"
    by simp
  from u [THEN conjunct2, THEN conjunct1, THEN mp, OF conjI, OF unread waiting] none
  have two: "emitted (onReadyRead ''GET /foo'' init) = [] \<and>
      \<not> requestHeadersRead (onReadyRead ''GET /foo'' init)"
    by simp
  from v [THEN conjunct2, THEN conjunct2, THEN conjunct1] none
  have three: "emitted (onReadyRead ''hello'' (init\<lparr>requestHeadersRead := True\<rparr>)) = [readyRead]"
    by simp
  from w [THEN conjunct2, THEN conjunct2, THEN conjunct2, THEN conjunct1] arrived
  have four: "count_list (emitted (run [DataArrived ''GET / HTTP/1.0'',
      DataArrived [CHR 0x0D, CHR 0x0A, CHR 0x0D], DataArrived (CHR 0x0A # ''hello''),
      DataArrived ''more''] init)) requestHeadersParsed = 1"
    by (simp only: if_False)
  from one two three four show ?thesis by blast
qed


text \<open>
  Claim C5, as stated, fails: for a request line of two parts followed by a header
  line without a colon, \<open>error\<close> is set twice and holds the kind of the second fault,
  \<open>MalformedRequestHeader\<close>, not that of the first.
\<close>

theorem error_overwritten_counterexample:
  "parseFaults (''GET /foo'' @ [CHR 0x0D, CHR 0x0A] @ ''X-Test no-colon'') =
     [MalformedRequestLine, MalformedRequestHeader] \<and>
   error (run [DataArrived (''GET /foo'' @ [CHR 0x0D, CHR 0x0A] @ ''X-Test no-colon'' @ CRLFCRLF)]
     init) = MalformedRequestHeader \<and>
   emitted (run [DataArrived (''GET /foo'' @ [CHR 0x0D, CHR 0x0A] @ ''X-Test no-colon'' @ CRLFCRLF)]
     init) =
     [errorChanged MalformedRequestLine, errorChanged MalformedRequestHeader, requestHeadersParsed]"
  by (simp add: CRLFCRLF_def parseFaults_def requestLineFault_def requestHeaderFault_def
      QString_split.simps onReadyRead_def QString_fromByteArray_def init_def parseRequestHeaders_def parseRequestLine_def
      parseRequestHeader_def abortWithError_def emit_def)

text \<open>
  Claim C5, amended. Parsing a header block sets \<open>error\<close> once for each faulty
  line, in the order of the lines, so it ends as the kind of the last fault and is
  left alone by a block without fault. Over every sequence of calls on a new object
  \<open>error\<close> is \<open>NoError\<close> until the delimiter has arrived and then the kind of the last
  fault of the header block, if it has one. It is never cleared: once it differs
  from \<open>NoError\<close> it does so after every further call.
\<close>

theorem error_last_fault:
  "error (parseRequestHeaders headers d) =
     (if parseFaults headers = [] then error d else last (parseFaults headers)) \<and>
   emitted (parseRequestHeaders headers d) = emitted d @ map errorChanged (parseFaults headers) \<and>
   error (run cs init) =
     (case QString_indexOf (received cs) CRLFCRLF of
        None \<Rightarrow> NoError
      | Some i \<Rightarrow>
          if parseFaults (QString_fromByteArray (take i (received cs))) = [] then NoError
          else last (parseFaults (QString_fromByteArray (take i (received cs))))) \<and>
   (error d \<noteq> NoError \<longrightarrow> error (run cs d) \<noteq> NoError)"
proof (intro conjI impI)
  show "error (parseRequestHeaders headers d) =
      (if parseFaults headers = [] then error d else last (parseFaults headers))"
    by (rule error_parseRequestHeaders)
  show "emitted (parseRequestHeaders headers d) = emitted d @ map errorChanged (parseFaults headers)"
    using reports_parseRequestHeaders [of headers d] by (simp add: reports_def)
  have "error (run cs init) = fst (request (run cs init))"
    by (simp add: request_def)
  also have "\<dots> =
      (case QString_indexOf (received cs) CRLFCRLF of
         None \<Rightarrow> error init
       | Some i \<Rightarrow> error (parseRequestHeaders (QString_fromByteArray (take i (received cs))) init))"
    unfolding request_run by (simp add: request_def split: option.splits)
  also have "\<dots> =
      (case QString_indexOf (received cs) CRLFCRLF of
         None \<Rightarrow> NoError
       | Some i \<Rightarrow>
           if parseFaults (QString_fromByteArray (take i (received cs))) = [] then NoError
           else last (parseFaults (QString_fromByteArray (take i (received cs)))))"
    by (simp add: error_parseRequestHeaders init_def split: option.splits)
  finally show "error (run cs init) =
      (case QString_indexOf (received cs) CRLFCRLF of
         None \<Rightarrow> NoError
       | Some i \<Rightarrow>
           if parseFaults (QString_fromByteArray (take i (received cs))) = [] then NoError
           else last (parseFaults (QString_fromByteArray (take i (received cs)))))" .
next
  assume "error d \<noteq> NoError"
  then show "error (run cs d) \<noteq> NoError"
    by (rule error_run)
qed

theorem error_last_fault_witness:
  "error (abortWithError InvalidHttpVersion init) \<noteq> NoError \<and>
   error (run [DataArrived (''X-Test no-colon'' @ CRLFCRLF), ReadData 2, WriteData ''hello'', Close]
     (abortWithError InvalidHttpVersion init)) \<noteq> NoError"
proof -
  have set: "error (abortWithError InvalidHttpVersion init) \<noteq> NoError"
    by (simp add: abortWithError_def emit_def)
  from set error_last_fault [where d = "abortWithError InvalidHttpVersion init"
      and cs = "[DataArrived (''X-Test no-colon'' @ CRLFCRLF), ReadData 2, WriteData ''hello'', Close]",
      THEN conjunct2, THEN conjunct2, THEN conjunct2, THEN mp, OF set]
  show ?thesis by (rule conjI)
qed

text \<open>
  Claim C7. For every byte sequence and every way of cutting it into chunks, the
  arrival of the chunks one after the other on a new object leaves the same method,
  URI, request headers, error and \<open>requestHeadersRead\<close> as the arrival of the whole
  sequence at once.
\<close>

theorem chunks_as_one:
  "requestMethod (run (map DataArrived chunks) init) =
     requestMethod (run [DataArrived (concat chunks)] init) \<and>
   requestUri (run (map DataArrived chunks) init) =
     requestUri (run [DataArrived (concat chunks)] init) \<and>
   requestHeaders (run (map DataArrived chunks) init) =
     requestHeaders (run [DataArrived (concat chunks)] init) \<and>
   error (run (map DataArrived chunks) init) =
     error (run [DataArrived (concat chunks)] init) \<and>
   requestHeadersRead (run (map DataArrived chunks) init) =
     requestHeadersRead (run [DataArrived (concat chunks)] init)"
proof -
  have same: "received (map DataArrived chunks) = received [DataArrived (concat chunks)]"
    by (simp add: received_chunks)
  have "request (run (map DataArrived chunks) init) =
      request (run [DataArrived (concat chunks)] init)"
    unfolding request_run same ..
  moreover have "requestHeadersRead (run (map DataArrived chunks) init) =
      requestHeadersRead (run [DataArrived (concat chunks)] init)"
    unfolding requestHeadersRead_run same ..
  ultimately show ?thesis
    by (simp add: request_def)
qed


theorem chunks_as_one_witness:
  "requestMethod (run (map DataArrived [''GET /foo HT'', ''TP/1.1'' @ [CHR 0x0D],
     CHR 0x0A # ''Ho'', ''st: a'' @ [CHR 0x0D, CHR 0x0A, CHR 0x0D], CHR 0x0A # ''body'']) init) =
     ''GET'' \<and>
   requestUri (run (map DataArrived [''GET /foo HT'', ''TP/1.1'' @ [CHR 0x0D],
     CHR 0x0A # ''Ho'', ''st: a'' @ [CHR 0x0D, CHR 0x0A, CHR 0x0D], CHR 0x0A # ''body'']) init) =
     ''/foo'' \<and>
   requestHeaders (run (map DataArrived [''GET /foo HT'', ''TP/1.1'' @ [CHR 0x0D],
     CHR 0x0A # ''Ho'', ''st: a'' @ [CHR 0x0D, CHR 0x0A, CHR 0x0D], CHR 0x0A # ''body'']) init) =
     [(''host'', ''a'')]"
proof -
  have one: "run [DataArrived (concat [''GET /foo HT'', ''TP/1.1'' @ [CHR 0x0D],
      CHR 0x0A # ''Ho'', ''st: a'' @ [CHR 0x0D, CHR 0x0A, CHR 0x0D], CHR 0x0A # ''body''])] init =
      init\<lparr>buffer := ''body'', requestMethod := ''GET'', requestUri := ''/foo'',
        requestHeaders := [(''host'', ''a'')], requestHeadersRead := True,
        emitted := [requestHeadersParsed]\<rparr>"
    by (simp add: CRLFCRLF_def QString_split.simps onReadyRead_def QString_fromByteArray_def init_def
        parseRequestHeaders_def parseRequestLine_def parseRequestHeader_def emit_def
        QString_toLower_def QChar_toLower_def QString_trimmed_def isSpace_def)
  show ?thesis
    unfolding chunks_as_one [of "[''GET /foo HT'', ''TP/1.1'' @ [CHR 0x0D],
      CHR 0x0A # ''Ho'', ''st: a'' @ [CHR 0x0D, CHR 0x0A, CHR 0x0D], CHR 0x0A # ''body'']",
      THEN conjunct1]
      chunks_as_one [of "[''GET /foo HT'', ''TP/1.1'' @ [CHR 0x0D],
      CHR 0x0A # ''Ho'', ''st: a'' @ [CHR 0x0D, CHR 0x0A, CHR 0x0D], CHR 0x0A # ''body'']",
      THEN conjunct2, THEN conjunct1]
      chunks_as_one [of "[''GET /foo HT'', ''TP/1.1'' @ [CHR 0x0D],
      CHR 0x0A # ''Ho'', ''st: a'' @ [CHR 0x0D, CHR 0x0A, CHR 0x0D], CHR 0x0A # ''body'']",
      THEN conjunct2, THEN conjunct2, THEN conjunct1]
      one
    by simp
qed

end
